theory Spec2Isabelle
  imports Main "HOL-Library.Word"
begin

section \<open>HOL\_Queue.h: the generic ring buffer\<close>

text \<open>
  The header generates, for every pair \<open>(TYPE, SIZE)\<close>, a struct and a family of
  functions. The model has one polymorphic copy of each: the element type is the type
  variable \<open>'a\<close>, \<open>size_t\<close> is a machine word \<open>'w word\<close> of the platform's width, and the
  capacity \<open>SIZE\<close> is the first argument \<open>N\<close> of every function whose body mentions
  it, already converted to \<open>size_t\<close> as the comparisons and \<open>%\<close> of the source do.

  A pointer argument is an \<open>option\<close>: \<open>None\<close> is \<open>NULL\<close>, \<open>Some x\<close> a pointer to an
  object whose current content is \<open>x\<close>. A function that writes through a pointer
  returns the new content of the object in the same position of its result.
\<close>

subsection \<open>Status codes and the queue struct\<close>

datatype queue_status =
    QUEUE_OK
  | QUEUE_ERROR_NULL_POINTER
  | QUEUE_ERROR_EMPTY
  | QUEUE_ERROR_FULL
  | QUEUE_ERROR_INVALID_LENGTH

record (overloaded) ('a, 'w) queue =
  buffer :: "'a list"
  write_index :: "'w word"
  read_index :: "'w word"
  count :: "'w word"

subsection \<open>Initialisation and queries\<close>

definition queue_initialize ::
  "('a, 'w::len) queue option \<Rightarrow> queue_status \<times> ('a, 'w) queue option" where
  "queue_initialize self =
     (case self of
        None \<Rightarrow> (QUEUE_ERROR_NULL_POINTER, None)
      | Some q \<Rightarrow>
          (QUEUE_OK, Some (q\<lparr>write_index := 0, read_index := 0, count := 0\<rparr>)))"

definition queue_is_empty :: "('a, 'w::len) queue option \<Rightarrow> bool" where
  "queue_is_empty self = (case self of None \<Rightarrow> True | Some q \<Rightarrow> count q = 0)"

definition queue_is_full :: "'w word \<Rightarrow> ('a, 'w::len) queue option \<Rightarrow> bool" where
  "queue_is_full N self = (case self of None \<Rightarrow> False | Some q \<Rightarrow> count q \<ge> N)"

definition queue_count :: "('a, 'w::len) queue option \<Rightarrow> 'w word" where
  "queue_count self = (case self of None \<Rightarrow> 0 | Some q \<Rightarrow> count q)"

definition queue_available_space :: "'w word \<Rightarrow> ('a, 'w::len) queue option \<Rightarrow> 'w word" where
  "queue_available_space N self = (case self of None \<Rightarrow> 0 | Some q \<Rightarrow> N - count q)"

subsection \<open>Push\<close>

text \<open>
  \<open>buffer[write_index] = data\<close> is a list update. The array has \<open>SIZE\<close> slots and the
  index stays below \<open>SIZE\<close> in every state the functions produce from an initialised
  one, so the update is always in range there.
\<close>

definition queue_push ::
  "'w word \<Rightarrow> ('a, 'w::len) queue option \<Rightarrow> 'a \<Rightarrow> queue_status \<times> ('a, 'w) queue option" where
  "queue_push N self data =
     (case self of
        None \<Rightarrow> (QUEUE_ERROR_NULL_POINTER, None)
      | Some q \<Rightarrow>
          let q1 = (if count q \<ge> N
                    then q\<lparr>read_index := (read_index q + 1) mod N\<rparr>
                    else q\<lparr>count := count q + 1\<rparr>);
              q2 = q1\<lparr>buffer := (buffer q1)[unat (write_index q1) := data]\<rparr>;
              q3 = q2\<lparr>write_index := (write_index q2 + 1) mod N\<rparr>
          in (QUEUE_OK, Some q3))"

definition queue_push_no_overwrite ::
  "'w word \<Rightarrow> ('a, 'w::len) queue option \<Rightarrow> 'a \<Rightarrow> queue_status \<times> ('a, 'w) queue option" where
  "queue_push_no_overwrite N self data =
     (case self of
        None \<Rightarrow> (QUEUE_ERROR_NULL_POINTER, None)
      | Some q \<Rightarrow>
          if count q \<ge> N then (QUEUE_ERROR_FULL, Some q)
          else
            let q1 = q\<lparr>buffer := (buffer q)[unat (write_index q) := data]\<rparr>;
                q2 = q1\<lparr>write_index := (write_index q1 + 1) mod N\<rparr>;
                q3 = q2\<lparr>count := count q2 + 1\<rparr>
            in (QUEUE_OK, Some q3))"

subsection \<open>Pull, bulk pull, peek, clear\<close>

definition queue_pull ::
  "'w word \<Rightarrow> ('a, 'w::len) queue option \<Rightarrow> 'a option
     \<Rightarrow> queue_status \<times> ('a, 'w) queue option \<times> 'a option" where
  "queue_pull N self data =
     (case (self, data) of
        (Some q, Some d) \<Rightarrow>
          if count q = 0 then (QUEUE_ERROR_EMPTY, Some q, Some d)
          else
            let d' = buffer q ! unat (read_index q);
                q1 = q\<lparr>read_index := (read_index q + 1) mod N\<rparr>;
                q2 = q1\<lparr>count := count q1 - 1\<rparr>
            in (QUEUE_OK, Some q2, Some d')
      | _ \<Rightarrow> (QUEUE_ERROR_NULL_POINTER, self, data))"

text \<open>
  The \<open>for\<close> loop of \<open>queue_pull_multiple\<close>: \<open>i\<close> runs from its start value up to the
  local \<open>actual_length\<close>, which the loop does not change.
\<close>

function pull_loop ::
  "'w word \<Rightarrow> 'w word \<Rightarrow> 'w::len word \<Rightarrow> ('a, 'w) queue \<Rightarrow> 'a list
     \<Rightarrow> ('a, 'w) queue \<times> 'a list" where
  "pull_loop N actual_length i q data_out =
     (if i < actual_length
      then
        let out1 = data_out[unat i := buffer q ! unat (read_index q)];
            q1 = q\<lparr>read_index := (read_index q + 1) mod N\<rparr>;
            q2 = q1\<lparr>count := count q1 - 1\<rparr>
        in pull_loop N actual_length (i + 1) q2 out1
      else (q, data_out))"
  by pat_completeness auto
termination
proof (relation "measure (\<lambda>(N, al, i, q, out). unat al - unat i)", goal_cases)
  case 1
  show ?case by simp
next
  case (2 N al i q out x xa xb)
  from \<open>i < al\<close> have lt: "unat i < unat al"
    by (simp add: word_less_nat_alt)
  moreover have "unat al < 2 ^ LENGTH('a)"
    by (rule unsigned_less)
  ultimately have "Suc (unat i) < 2 ^ LENGTH('a)"
    by linarith
  then have "unat i + unat (1::'a word) < 2 ^ LENGTH('a)"
    by simp
  then have "unat (i + 1) = unat i + unat (1::'a word)"
    by (simp only: unat_add_lem)
  with lt show ?case
    by simp
qed

declare pull_loop.simps [simp del]

definition queue_pull_multiple ::
  "'w word \<Rightarrow> ('a, 'w::len) queue option \<Rightarrow> 'a list option \<Rightarrow> 'w word \<Rightarrow> 'w word option
     \<Rightarrow> queue_status \<times> ('a, 'w) queue option \<times> 'a list option \<times> 'w word option" where
  "queue_pull_multiple N self data_out len read_count =
     (case (self, data_out) of
        (Some q, Some out) \<Rightarrow>
          if len = 0 then (QUEUE_ERROR_NULL_POINTER, self, data_out, read_count)
          else if count q = 0
          then (QUEUE_ERROR_EMPTY, self, data_out, map_option (\<lambda>_. 0) read_count)
          else
            let actual_length = (if len > count q then count q else len);
                (q', out') = pull_loop N actual_length 0 q out
            in (QUEUE_OK, Some q', Some out', map_option (\<lambda>_. actual_length) read_count)
      | _ \<Rightarrow> (QUEUE_ERROR_NULL_POINTER, self, data_out, read_count))"

definition queue_peek ::
  "('a, 'w::len) queue option \<Rightarrow> 'a option
     \<Rightarrow> queue_status \<times> ('a, 'w) queue option \<times> 'a option" where
  "queue_peek self data =
     (case (self, data) of
        (Some q, Some d) \<Rightarrow>
          if count q = 0 then (QUEUE_ERROR_EMPTY, Some q, Some d)
          else (QUEUE_OK, Some q, Some (buffer q ! unat (read_index q)))
      | _ \<Rightarrow> (QUEUE_ERROR_NULL_POINTER, self, data))"

definition queue_clear :: "('a, 'w::len) queue option \<Rightarrow> ('a, 'w) queue option" where
  "queue_clear self =
     (case self of
        None \<Rightarrow> None
      | Some q \<Rightarrow> Some (q\<lparr>write_index := 0, read_index := 0, count := 0\<rparr>))"

subsection \<open>The string element and its two helpers\<close>

text \<open>
  \<open>str_S\<close> is a struct with the single member \<open>char data[STRING_SIZE]\<close>; the model
  identifies it with that array, a list of \<open>STRING_SIZE\<close> characters.

  A \<open>const char *\<close> is the list of bytes found from the pointer on. The C string it
  designates ends before the first \<open>'\\0'\<close>; a list that holds none is read as
  terminated at its end.
\<close>

type_synonym str = "char list"

definition NUL :: char where
  "NUL = CHR 0x00"

definition c_str :: "char list \<Rightarrow> char list" where
  "c_str s = takeWhile (\<lambda>c. c \<noteq> NUL) s"

text \<open>
  The library function \<open>strncpy(dest, src, n)\<close>: it writes exactly \<open>n\<close> bytes, the
  first \<open>n\<close> characters of the string at \<open>src\<close>, padded with \<open>'\\0'\<close> when the string
  is shorter, and leaves the rest of \<open>dest\<close> alone. It adds no terminator of its own
  when the string has \<open>n\<close> characters or more. The caller owes it \<open>n\<close> bytes of room
  at \<open>dest\<close>; the theorems below state that as a hypothesis on the length of the
  destination.
\<close>

definition strncpy :: "char list \<Rightarrow> char list \<Rightarrow> nat \<Rightarrow> char list" where
  "strncpy dest src n =
     (let s = take n (c_str src)
      in s @ replicate (n - length s) NUL @ drop n dest)"

text \<open>
  The local \<open>item\<close> of both helpers is declared without an initialiser. Its bytes at
  that point are whatever the stack holds, so the model takes them as the argument
  \<open>item\<close>.
\<close>

definition queue_push_with_string_support ::
  "nat \<Rightarrow> 'w word \<Rightarrow> str \<Rightarrow> (str, 'w::len) queue option \<Rightarrow> char list option
     \<Rightarrow> (str, 'w) queue option" where
  "queue_push_with_string_support S N item queue str =
     (case (queue, str) of
        (Some q, Some s) \<Rightarrow>
          let item1 = strncpy item s (S - 1);
              item2 = item1[S - 1 := NUL]
          in snd (queue_push N queue item2)
      | _ \<Rightarrow> queue)"

definition queue_pull_with_string_support ::
  "'w word \<Rightarrow> str \<Rightarrow> (str, 'w::len) queue option \<Rightarrow> char list option \<Rightarrow> 'w word
     \<Rightarrow> int \<times> (str, 'w) queue option \<times> char list option" where
  "queue_pull_with_string_support N item queue output max_len =
     (case (queue, output) of
        (Some q, Some out) \<Rightarrow>
          if max_len = 0 then (0, queue, output)
          else
            (case queue_pull N queue (Some item) of
               (QUEUE_OK, queue', Some item') \<Rightarrow>
                 let out1 = strncpy out item' (unat (max_len - 1));
                     out2 = out1[unat (max_len - 1) := NUL]
                 in (1, queue', Some out2)
             | (_, queue', _) \<Rightarrow> (0, queue', output))
      | _ \<Rightarrow> (0, queue, output))"

section \<open>Specification vocabulary\<close>

text \<open>
  The ranges the data model gives the three counters, and the array's length.
\<close>

definition queue_inv :: "'w word \<Rightarrow> ('a, 'w::len) queue \<Rightarrow> bool" where
  "queue_inv N q \<longleftrightarrow>
     length (buffer q) = unat N \<and> count q \<le> N \<and> read_index q < N \<and> write_index q < N"

text \<open>
  A state is well formed when, in addition, the write index is \<open>count\<close> slots ahead of
  the read index, circularly. The live elements are the \<open>count\<close> slots from the read
  index on, oldest first.
\<close>

definition queue_wf :: "'w word \<Rightarrow> ('a, 'w::len) queue \<Rightarrow> bool" where
  "queue_wf N q \<longleftrightarrow>
     queue_inv N q \<and>
     unat (write_index q) = (unat (read_index q) + unat (count q)) mod unat N"

definition queue_contents :: "'w word \<Rightarrow> ('a, 'w::len) queue \<Rightarrow> 'a list" where
  "queue_contents N q =
     map (\<lambda>i. buffer q ! ((unat (read_index q) + i) mod unat N)) [0..<unat (count q)]"

text \<open>Pushing a list of values one after the other, first element first.\<close>

fun push_all :: "'w word \<Rightarrow> ('a, 'w::len) queue option \<Rightarrow> 'a list \<Rightarrow> ('a, 'w) queue option" where
  "push_all N self [] = self"
| "push_all N self (v # vs) = push_all N (snd (queue_push N self v)) vs"

text \<open>
  Calling \<open>queue_pull\<close> \<open>k\<close> times with the address of one variable, whose content is
  \<open>d\<close> before the first call. The result lists, call by call, the status returned and
  the content of the variable after the call.
\<close>

fun pull_times ::
  "'w word \<Rightarrow> nat \<Rightarrow> ('a, 'w::len) queue option \<Rightarrow> 'a
     \<Rightarrow> (queue_status \<times> 'a) list \<times> ('a, 'w) queue option" where
  "pull_times N 0 self d = ([], self)"
| "pull_times N (Suc k) self d =
     (case queue_pull N self (Some d) of
        (st, self', d') \<Rightarrow>
          let x = (case d' of Some y \<Rightarrow> y | None \<Rightarrow> d);
              (rs, self'') = pull_times N k self' x
          in ((st, x) # rs, self''))"

text \<open>
  One call of the interface, with its arguments other than the handle; \<open>'s\<close> is the
  type of \<open>size_t\<close> values.
\<close>

datatype ('a, 's) queue_call =
    Initialize
  | Push 'a
  | Push_no_overwrite 'a
  | Pull "'a option"
  | Pull_multiple "'a list option" 's "'s option"
  | Peek "'a option"
  | Clear

fun call ::
  "'w word \<Rightarrow> ('a, 'w::len word) queue_call \<Rightarrow> ('a, 'w) queue option \<Rightarrow> ('a, 'w) queue option" where
  "call N Initialize self = snd (queue_initialize self)"
| "call N (Push v) self = snd (queue_push N self v)"
| "call N (Push_no_overwrite v) self = snd (queue_push_no_overwrite N self v)"
| "call N (Pull data) self = fst (snd (queue_pull N self data))"
| "call N (Pull_multiple data_out len read_count) self =
     fst (snd (queue_pull_multiple N self data_out len read_count))"
| "call N (Peek data) self = fst (snd (queue_peek self data))"
| "call N Clear self = queue_clear self"

fun calls ::
  "'w word \<Rightarrow> ('a, 'w::len word) queue_call list \<Rightarrow> ('a, 'w) queue option
     \<Rightarrow> ('a, 'w) queue option" where
  "calls N [] self = self"
| "calls N (c # cs) self = calls N cs (call N c self)"

section \<open>Auxiliary facts\<close>

subsection \<open>Words and circular indices\<close>

lemma unat_succ_less:
  fixes i :: "'w::len word"
  assumes "i < al"
  shows "unat (i + 1) = Suc (unat i)"
proof -
  have "unat i < unat al" using assms by (simp add: word_less_nat_alt)
  moreover have "unat al < 2 ^ LENGTH('w)" by (rule unsigned_less)
  ultimately have "Suc (unat i) < 2 ^ LENGTH('w)" by linarith
  then have "unat i + unat (1::'w word) < 2 ^ LENGTH('w)" by simp
  then have "unat (i + 1) = unat i + unat (1::'w word)"
    by (simp only: unat_add_lem)
  then show ?thesis by simp
qed

lemma unat_succ_mod:
  fixes r :: "'w::len word"
  assumes "r < N"
  shows "unat ((r + 1) mod N) = Suc (unat r) mod unat N"
  using unat_succ_less [OF assms] by (simp add: unat_mod)

lemma unat_pred: "(c::'w::len word) \<noteq> 0 \<Longrightarrow> unat (c - 1) = unat c - 1"
  by (simp add: unat_minus_one)

lemma mod_shift_neq:
  fixes r :: nat
  assumes "i < j" "j - i < n"
  shows "(r + i) mod n \<noteq> (r + j) mod n"
proof
  assume eq: "(r + i) mod n = (r + j) mod n"
  define a where "a = (r + i) mod n"
  define d where "d = j - i"
  have n: "0 < n" and d: "0 < d" "d < n" and j: "j = i + d"
    using assms by (auto simp: d_def)
  have a: "a < n" using n by (simp add: a_def)
  have "(r + j) mod n = (a + d) mod n"
    unfolding a_def j by (metis add.assoc mod_add_left_eq)
  with eq have "(a + d) mod n = a" by (simp add: a_def)
  moreover have "(a + d) mod n = (if a + d < n then a + d else a + d - n)"
    using a d by (simp add: mod_if)
  ultimately show False using a d by (auto split: if_splits)
qed

lemma length_queue_contents: "length (queue_contents N q) = unat (count q)"
  by (simp add: queue_contents_def)

lemma queue_contents_nth:
  "i < unat (count q) \<Longrightarrow> queue_contents N q ! i = buffer q ! ((unat (read_index q) + i) mod unat N)"
  by (simp add: queue_contents_def)


lemma mod_Suc_shift: "(Suc r mod n + i) mod n = (r + Suc i) mod n"
  by (metis add_Suc add_Suc_right mod_add_left_eq)

lemma ring_append:
  assumes "length b = n" "c < n"
  shows "map (\<lambda>i. b[(r + c) mod n := v] ! ((r + i) mod n)) [0..<Suc c]
         = map (\<lambda>i. b ! ((r + i) mod n)) [0..<c] @ [v]"
proof (rule nth_equalityI)
  show "length (map (\<lambda>i. b[(r + c) mod n := v] ! ((r + i) mod n)) [0..<Suc c])
        = length (map (\<lambda>i. b ! ((r + i) mod n)) [0..<c] @ [v])"
    by simp
next
  fix i
  assume "i < length (map (\<lambda>i. b[(r + c) mod n := v] ! ((r + i) mod n)) [0..<Suc c])"
  then have i: "i \<le> c" by simp
  have n: "0 < n" using assms by simp
  show "map (\<lambda>i. b[(r + c) mod n := v] ! ((r + i) mod n)) [0..<Suc c] ! i
        = (map (\<lambda>i. b ! ((r + i) mod n)) [0..<c] @ [v]) ! i"
  proof (cases "i = c")
    case True
    have "(r + c) mod n < length b" using assms n by simp
    then have "b[(r + c) mod n := v] ! ((r + c) mod n) = v" by simp
    moreover have "[0..<Suc c] ! c = c" by (metis add_0 lessI nth_upt)
    ultimately show ?thesis using True by (simp add: nth_append del: upt_Suc)
  next
    case False
    with i have lt: "i < c" by simp
    then have "(r + i) mod n \<noteq> (r + c) mod n"
      using assms by (intro mod_shift_neq) auto
    then have "b[(r + c) mod n := v] ! ((r + i) mod n) = b ! ((r + i) mod n)"
      by simp
    moreover have "[0..<Suc c] ! i = i" using lt by (metis add_0 less_Suc_eq nth_upt)
    ultimately show ?thesis using lt by (simp add: nth_append del: upt_Suc)
  qed
qed

lemma ring_tl:
  "map (\<lambda>i. b ! ((Suc r mod n + i) mod n)) [0..<c - 1]
   = tl (map (\<lambda>i. b ! ((r + i) mod n)) [0..<c])"
proof (rule nth_equalityI)
  show "length (map (\<lambda>i. b ! ((Suc r mod n + i) mod n)) [0..<c - 1])
        = length (tl (map (\<lambda>i. b ! ((r + i) mod n)) [0..<c]))"
    by simp
next
  fix i
  assume "i < length (map (\<lambda>i. b ! ((Suc r mod n + i) mod n)) [0..<c - 1])"
  then have i: "i < c - 1" "Suc i < c" by simp_all
  have "map (\<lambda>i. b ! ((Suc r mod n + i) mod n)) [0..<c - 1] ! i = b ! ((r + Suc i) mod n)"
    using i(1) by (simp add: mod_Suc_shift del: One_nat_def)
  moreover have "tl (map (\<lambda>i. b ! ((r + i) mod n)) [0..<c]) ! i = b ! ((r + Suc i) mod n)"
    using i(2) by (simp add: nth_tl)
  ultimately show "map (\<lambda>i. b ! ((Suc r mod n + i) mod n)) [0..<c - 1] ! i
             = tl (map (\<lambda>i. b ! ((r + i) mod n)) [0..<c]) ! i"
    by simp
qed

lemma ring_overwrite:
  assumes "length b = n" "r < n"
  shows "map (\<lambda>i. b[r := v] ! ((Suc r mod n + i) mod n)) [0..<n]
         = tl (map (\<lambda>i. b ! ((r + i) mod n)) [0..<n]) @ [v]"
proof (rule nth_equalityI)
  show "length (map (\<lambda>i. b[r := v] ! ((Suc r mod n + i) mod n)) [0..<n])
        = length (tl (map (\<lambda>i. b ! ((r + i) mod n)) [0..<n]) @ [v])"
    using assms by simp
next
  fix i
  assume "i < length (map (\<lambda>i. b[r := v] ! ((Suc r mod n + i) mod n)) [0..<n])"
  then have i: "i < n" by simp
  show "map (\<lambda>i. b[r := v] ! ((Suc r mod n + i) mod n)) [0..<n] ! i
        = (tl (map (\<lambda>i. b ! ((r + i) mod n)) [0..<n]) @ [v]) ! i"
  proof (cases "Suc i = n")
    case True
    have "(r + Suc i) mod n = r" using True assms by simp
    then have "map (\<lambda>i. b[r := v] ! ((Suc r mod n + i) mod n)) [0..<n] ! i = v"
      using i assms by (simp add: mod_Suc_shift del: add_Suc_right)
    moreover have "length (tl (map (\<lambda>i. b ! ((r + i) mod n)) [0..<n])) = i"
      using True by auto
    then have "(tl (map (\<lambda>i. b ! ((r + i) mod n)) [0..<n]) @ [v]) ! i = v"
      by (metis nth_append_length)
    ultimately show ?thesis by simp
  next
    case False
    with i have lt: "Suc i < n" by simp
    have "(r + 0) mod n \<noteq> (r + Suc i) mod n"
      using lt by (intro mod_shift_neq) auto
    then have "(r + Suc i) mod n \<noteq> r" using assms by simp
    then have "map (\<lambda>i. b[r := v] ! ((Suc r mod n + i) mod n)) [0..<n] ! i
               = b ! ((r + Suc i) mod n)"
      using i by (simp add: mod_Suc_shift del: add_Suc_right)
    moreover have "(tl (map (\<lambda>i. b ! ((r + i) mod n)) [0..<n]) @ [v]) ! i
               = b ! ((r + Suc i) mod n)"
    proof -
      let ?xs = "map (\<lambda>i. b ! ((r + i) mod n)) [0..<n]"
      have len: "i < length (tl ?xs)" using lt by simp
      then have "(tl ?xs @ [v]) ! i = tl ?xs ! i" by (simp only: nth_append if_True)
      also have "\<dots> = ?xs ! Suc i" using len by (rule nth_tl)
      also have "\<dots> = b ! ((r + Suc i) mod n)" using lt by simp
      finally show ?thesis .
    qed
    ultimately show ?thesis by simp
  qed
qed


lemma queue_wf_unat:
  assumes "queue_wf N q"
  shows "length (buffer q) = unat N"
    and "unat (count q) \<le> unat N"
    and "unat (read_index q) < unat N"
    and "unat (write_index q) < unat N"
    and "unat (write_index q) = (unat (read_index q) + unat (count q)) mod unat N"
  using assms by (simp_all add: queue_wf_def queue_inv_def word_le_nat_alt word_less_nat_alt)

lemma queue_wfI:
  assumes "length (buffer q) = unat N"
    and "unat (count q) \<le> unat N"
    and "unat (read_index q) < unat N"
    and "unat (write_index q) < unat N"
    and "unat (write_index q) = (unat (read_index q) + unat (count q)) mod unat N"
  shows "queue_wf N q"
  using assms by (simp add: queue_wf_def queue_inv_def word_le_nat_alt word_less_nat_alt)

lemma queue_push_contents:
  assumes wf: "queue_wf N q"
  shows "\<exists>q'. queue_push N (Some q) v = (QUEUE_OK, Some q') \<and> queue_wf N q' \<and>
           queue_contents N q' =
             (if count q = N then tl (queue_contents N q) else queue_contents N q) @ [v]"
proof (cases "count q < N")
  case True
  let ?q' = "q\<lparr>count := count q + 1,
               buffer := (buffer q)[unat (write_index q) := v],
               write_index := (write_index q + 1) mod N\<rparr>"
  note u = queue_wf_unat [OF wf]
  have c: "unat (count q) < unat N" using True by (simp add: word_less_nat_alt)
  have n: "0 < unat N" using c by simp
  have push: "queue_push N (Some q) v = (QUEUE_OK, Some ?q')"
    using True by (simp add: queue_push_def Let_def not_le [symmetric])
  have c': "unat (count q + 1) = Suc (unat (count q))"
    using True by (rule unat_succ_less)
  have w': "unat ((write_index q + 1) mod N) = Suc (unat (write_index q)) mod unat N"
    using wf by (intro unat_succ_mod) (simp add: queue_wf_def queue_inv_def)
  have "Suc (unat (write_index q)) mod unat N
        = (unat (read_index q) + Suc (unat (count q))) mod unat N"
    unfolding u(5) by (simp add: mod_Suc_eq)
  then have wf': "queue_wf N ?q'"
    using u c n by (intro queue_wfI) (simp_all add: c' w')
  have "queue_contents N ?q' = queue_contents N q @ [v]"
    unfolding queue_contents_def using ring_append [OF u(1) c, of "unat (read_index q)" v]
    by (simp add: c' u(5) del: upt_Suc)
  with push wf' True show ?thesis by auto
next
  case False
  note u = queue_wf_unat [OF wf]
  have "count q \<le> N" using wf by (simp add: queue_wf_def queue_inv_def)
  with False have full: "count q = N" by simp
  let ?q' = "q\<lparr>read_index := (read_index q + 1) mod N,
               buffer := (buffer q)[unat (write_index q) := v],
               write_index := (write_index q + 1) mod N\<rparr>"
  have n: "0 < unat N" using u(3) by simp
  have w: "unat (write_index q) = unat (read_index q)"
    using u(3,5) full by simp
  have push: "queue_push N (Some q) v = (QUEUE_OK, Some ?q')"
    using full by (simp add: queue_push_def Let_def)
  have r': "unat ((read_index q + 1) mod N) = Suc (unat (read_index q)) mod unat N"
    using wf by (intro unat_succ_mod) (simp add: queue_wf_def queue_inv_def)
  have w': "unat ((write_index q + 1) mod N) = Suc (unat (read_index q)) mod unat N"
    using wf w by (subst unat_succ_mod) (simp_all add: queue_wf_def queue_inv_def)
  have wf': "queue_wf N ?q'"
    using u n full by (intro queue_wfI) (simp_all add: r' w')
  have "queue_contents N ?q' = tl (queue_contents N q) @ [v]"
    unfolding queue_contents_def using ring_overwrite [OF u(1) u(3), of v]
    by (simp add: r' w full)
  with push wf' full show ?thesis by auto
qed


lemma pull_step:
  assumes wf: "queue_wf N q" and ne: "count q \<noteq> 0"
  defines "q' \<equiv> q\<lparr>read_index := (read_index q + 1) mod N, count := count q - 1\<rparr>"
  shows "queue_wf N q'"
    and "queue_contents N q' = tl (queue_contents N q)"
    and "buffer q ! unat (read_index q) = hd (queue_contents N q)"
    and "unat (count q') = unat (count q) - 1"
proof -
  note u = queue_wf_unat [OF wf]
  have c: "0 < unat (count q)" using ne by (simp add: unat_gt_0)
  have c': "unat (count q - 1) = unat (count q) - 1"
    using ne by (rule unat_pred)
  have r': "unat ((read_index q + 1) mod N) = Suc (unat (read_index q)) mod unat N"
    using wf by (intro unat_succ_mod) (simp add: queue_wf_def queue_inv_def)
  have "(Suc (unat (read_index q)) mod unat N + (unat (count q) - 1)) mod unat N
        = (unat (read_index q) + Suc (unat (count q) - 1)) mod unat N"
    by (rule mod_Suc_shift)
  also have "Suc (unat (count q) - 1) = unat (count q)"
    using c by simp
  finally have "(Suc (unat (read_index q)) mod unat N + (unat (count q) - 1)) mod unat N
        = (unat (read_index q) + unat (count q)) mod unat N" .
  then show "queue_wf N q'"
    unfolding q'_def using u c by (intro queue_wfI) (simp_all add: c' r')
  show "queue_contents N q' = tl (queue_contents N q)"
    unfolding q'_def queue_contents_def
    using ring_tl [of "buffer q" "unat (read_index q)" "unat N" "unat (count q)"]
    by (simp add: c' r')
  have "queue_contents N q \<noteq> []" using c by (simp add: queue_contents_def)
  then have "hd (queue_contents N q) = queue_contents N q ! 0" by (simp add: hd_conv_nth)
  also have "\<dots> = buffer q ! unat (read_index q)"
    using c u(3) by (simp add: queue_contents_nth)
  finally show "buffer q ! unat (read_index q) = hd (queue_contents N q)" by simp
  show "unat (count q') = unat (count q) - 1" by (simp add: q'_def c')
qed

lemma queue_pull_contents:
  assumes wf: "queue_wf N q" and ne: "count q \<noteq> 0"
  shows "\<exists>q'. queue_pull N (Some q) (Some d) = (QUEUE_OK, Some q', Some (hd (queue_contents N q)))
           \<and> queue_wf N q' \<and> queue_contents N q' = tl (queue_contents N q)"
  using pull_step [OF wf ne] ne by (simp add: queue_pull_def Let_def)

lemma queue_pull_empty:
  "count q = 0 \<Longrightarrow> queue_pull N (Some q) (Some d) = (QUEUE_ERROR_EMPTY, Some q, Some d)"
  by (simp add: queue_pull_def)

lemma queue_contents_Nil: "queue_contents N q = [] \<longleftrightarrow> count q = 0"
  by (simp add: queue_contents_def unat_eq_0)

lemma pull_times_contents:
  assumes "queue_wf N q"
  shows "\<exists>q'. pull_times N k (Some q) d =
            (map (Pair QUEUE_OK) (take k (queue_contents N q))
               @ replicate (k - length (queue_contents N q))
                   (QUEUE_ERROR_EMPTY, last (d # queue_contents N q)), Some q')
           \<and> queue_wf N q' \<and> queue_contents N q' = drop k (queue_contents N q)"
  using assms
proof (induction k arbitrary: q d)
  case 0
  then show ?case by simp
next
  case (Suc k)
  show ?case
  proof (cases "count q = 0")
    case True
    then have nil: "queue_contents N q = []" by (simp add: queue_contents_Nil)
    from Suc.IH [OF Suc.prems, of d] obtain q' where
      "pull_times N k (Some q) d = (replicate k (QUEUE_ERROR_EMPTY, d), Some q')"
      "queue_wf N q'" "queue_contents N q' = []"
      by (auto simp: nil)
    then show ?thesis
      using True by (simp add: queue_pull_empty nil)
  next
    case False
    from queue_pull_contents [OF Suc.prems False, of d] obtain q1 where
      pull: "queue_pull N (Some q) (Some d) = (QUEUE_OK, Some q1, Some (hd (queue_contents N q)))"
      and wf1: "queue_wf N q1" and c1: "queue_contents N q1 = tl (queue_contents N q)"
      by blast
    from False obtain h t where ht: "queue_contents N q = h # t"
      by (cases "queue_contents N q") (simp_all add: queue_contents_Nil)
    from Suc.IH [OF wf1, of h] obtain q' where
      "pull_times N k (Some q1) h =
         (map (Pair QUEUE_OK) (take k t) @ replicate (k - length t) (QUEUE_ERROR_EMPTY, last (h # t)),
          Some q')"
      "queue_wf N q'" "queue_contents N q' = drop k t"
      by (auto simp: c1 ht)
    then show ?thesis
      by (simp add: pull ht)
  qed
qed

lemma push_all_contents:
  assumes "queue_wf N q"
  shows "\<exists>q'. push_all N (Some q) vs = Some q' \<and> queue_wf N q' \<and>
           queue_contents N q' =
             drop (length (queue_contents N q @ vs) - unat N) (queue_contents N q @ vs)"
  using assms
proof (induction vs arbitrary: q)
  case Nil
  then show ?case
    using queue_wf_unat(2) [OF Nil] by (simp add: length_queue_contents)
next
  case (Cons v vs)
  from queue_push_contents [OF Cons.prems, of v] obtain q1 where
    push: "queue_push N (Some q) v = (QUEUE_OK, Some q1)" and wf1: "queue_wf N q1"
    and c1: "queue_contents N q1 =
        (if count q = N then tl (queue_contents N q) else queue_contents N q) @ [v]"
    by blast
  from Cons.IH [OF wf1] obtain q' where
    q': "push_all N (Some q1) vs = Some q'" "queue_wf N q'"
    "queue_contents N q' = drop (length (queue_contents N q1 @ vs) - unat N) (queue_contents N q1 @ vs)"
    by blast
  have "drop (length (queue_contents N q1 @ vs) - unat N) (queue_contents N q1 @ vs)
        = drop (length (queue_contents N q @ v # vs) - unat N) (queue_contents N q @ v # vs)"
  proof (cases "count q = N")
    case True
    have n: "0 < unat N" using queue_wf_unat(3) [OF Cons.prems] by simp
    then obtain h t where ht: "queue_contents N q = h # t"
      using True by (cases "queue_contents N q") (simp_all add: queue_contents_Nil unat_gt_0)
    have "length t = unat N - 1"
      using length_queue_contents [of N q] True ht by simp
    then show ?thesis using True n by (simp add: c1 ht)
  next
    case False
    then show ?thesis by (simp add: c1)
  qed
  with q' push show ?case by simp
qed


lemma pull_loop_contents:
  assumes "queue_wf N q" "unat i \<le> unat al" "unat al - unat i \<le> unat (count q)"
  shows "queue_wf N (fst (pull_loop N al i q out)) \<and>
         queue_contents N (fst (pull_loop N al i q out))
           = drop (unat al - unat i) (queue_contents N q) \<and>
         (unat al \<le> length out \<longrightarrow>
            snd (pull_loop N al i q out)
              = take (unat i) out @ take (unat al - unat i) (queue_contents N q)
                  @ drop (unat al) out)"
  using assms
proof (induction N al i q out rule: pull_loop.induct)
  case (1 N al i q out)
  show ?case
  proof (cases "i < al")
    case False
    then have eq: "unat i = unat al"
      using "1.prems"(2) by (simp add: word_less_nat_alt)
    have "pull_loop N al i q out = (q, out)"
      using False by (subst pull_loop.simps) simp
    then show ?thesis using "1.prems"(1) eq by simp
  next
    case True
    define x where "x = buffer q ! unat (read_index q)"
    define out1 where "out1 = out[unat i := x]"
    define q2 where "q2 = q\<lparr>read_index := (read_index q + 1) mod N, count := count q - 1\<rparr>"
    have q2': "q2 = (q\<lparr>read_index := (read_index q + 1) mod N\<rparr>)
                      \<lparr>count := count (q\<lparr>read_index := (read_index q + 1) mod N\<rparr>) - 1\<rparr>"
      by (simp add: q2_def)
    have lt: "unat i < unat al" using True by (simp add: word_less_nat_alt)
    have i': "unat (i + 1) = Suc (unat i)" using True by (rule unat_succ_less)
    have "0 < unat (count q)" using lt "1.prems"(3) by simp
    then have ne: "count q \<noteq> 0" by (simp add: unat_gt_0)
    note ps = pull_step [OF "1.prems"(1) ne, folded q2_def]
    have step: "pull_loop N al i q out = pull_loop N al (i + 1) q2 out1"
      using True by (subst pull_loop.simps) (simp add: Let_def q2_def out1_def x_def)
    have "unat al - unat (i + 1) \<le> unat (count q2)"
      using "1.prems"(3) lt by (simp add: i' ps(4))
    moreover have "unat (i + 1) \<le> unat al" using lt by (simp add: i')
    ultimately have IH:
      "queue_wf N (fst (pull_loop N al (i + 1) q2 out1))"
      "queue_contents N (fst (pull_loop N al (i + 1) q2 out1))
         = drop (unat al - unat (i + 1)) (queue_contents N q2)"
      "unat al \<le> length out1 \<longrightarrow>
         snd (pull_loop N al (i + 1) q2 out1)
           = take (unat (i + 1)) out1 @ take (unat al - unat (i + 1)) (queue_contents N q2)
               @ drop (unat al) out1"
      using "1.IH" [OF True out1_def [unfolded x_def] refl q2'] ps(1)
      by simp_all
    obtain h t where ht: "queue_contents N q = h # t"
      using ne by (cases "queue_contents N q") (simp_all add: queue_contents_Nil)
    have xh: "x = h" using ps(3) ht by (simp add: x_def)
    have d: "unat al - unat i = Suc (unat al - Suc (unat i))" using lt by simp
    have c: "drop (unat al - unat (i + 1)) (queue_contents N q2)
             = drop (unat al - unat i) (queue_contents N q)"
      unfolding i' ps(2) ht d by simp
    have o: "take (unat (i + 1)) out1 @ take (unat al - unat (i + 1)) (queue_contents N q2)
               @ drop (unat al) out1
             = take (unat i) out @ take (unat al - unat i) (queue_contents N q)
               @ drop (unat al) out" if "unat al \<le> length out"
    proof -
      have il: "unat i < length out" using lt that by simp
      have "take (Suc (unat i)) out1 = take (unat i) out @ [h]"
        using il by (simp add: out1_def xh take_Suc_conv_app_nth)
      moreover have "drop (unat al) out1 = drop (unat al) out"
        using lt by (simp add: out1_def)
      moreover have "take (unat al - unat i) (queue_contents N q)
                     = h # take (unat al - Suc (unat i)) t"
        unfolding ht d by simp
      ultimately show ?thesis by (simp add: i' ps(2) ht)
    qed
    show ?thesis
      unfolding step using IH c o by (simp add: out1_def)
  qed
qed


lemma queue_wf_nonzero: "queue_wf N q \<Longrightarrow> N \<noteq> 0"
  by (auto simp: queue_wf_def queue_inv_def)

lemma reset_wf:
  assumes "N \<noteq> 0" "length (buffer q) = unat N"
  shows "queue_wf N (q\<lparr>write_index := 0, read_index := 0, count := 0\<rparr>)"
    and "queue_contents N (q\<lparr>write_index := 0, read_index := 0, count := 0\<rparr>) = []"
proof -
  have "0 < unat N" using assms(1) by (simp add: unat_gt_0)
  then show "queue_wf N (q\<lparr>write_index := 0, read_index := 0, count := 0\<rparr>)"
    using assms(2) by (intro queue_wfI) simp_all
  show "queue_contents N (q\<lparr>write_index := 0, read_index := 0, count := 0\<rparr>) = []"
    by (simp add: queue_contents_def)
qed

lemma queue_initialize_empty:
  assumes "N \<noteq> 0" "length (buffer q0) = unat N"
  shows "\<exists>q. snd (queue_initialize (Some q0)) = Some q \<and> queue_wf N q \<and> count q = 0"
  using reset_wf(1) [OF assms] by (simp add: queue_initialize_def)

lemma queue_clear_empty:
  assumes "queue_wf N q0"
  shows "\<exists>q. queue_clear (Some q0) = Some q \<and> queue_wf N q \<and> count q = 0"
  using reset_wf(1) [OF queue_wf_nonzero [OF assms] queue_wf_unat(1) [OF assms]]
  by (simp add: queue_clear_def)

lemma queue_push_no_overwrite_eq_push:
  "count q < N \<Longrightarrow> queue_push_no_overwrite N (Some q) v = queue_push N (Some q) v"
  by (simp add: queue_push_no_overwrite_def queue_push_def Let_def not_le [symmetric])

lemma queue_push_no_overwrite_full:
  "N \<le> count q \<Longrightarrow> queue_push_no_overwrite N (Some q) v = (QUEUE_ERROR_FULL, Some q)"
  by (simp add: queue_push_no_overwrite_def)

lemma actual_length_le:
  fixes len c :: "'w::len word"
  shows "unat (if len > c then c else len) \<le> unat c"
  by (simp add: word_less_nat_alt)

lemma queue_pull_multiple_wf:
  assumes wf: "queue_wf N q"
  shows "\<exists>q'. fst (snd (queue_pull_multiple N (Some q) data_out len read_count)) = Some q'
           \<and> queue_wf N q'"
proof (cases data_out)
  case None
  then show ?thesis using wf by (simp add: queue_pull_multiple_def)
next
  case (Some out)
  show ?thesis
  proof (cases "len = 0 \<or> count q = 0")
    case True
    then show ?thesis using wf Some by (auto simp: queue_pull_multiple_def)
  next
    case False
    define al where "al = (if len > count q then count q else len)"
    have "unat al - unat (0::'a word) \<le> unat (count q)"
      unfolding al_def using actual_length_le [of "count q" len] by simp
    from pull_loop_contents [OF wf _ this, of out]
    have "queue_wf N (fst (pull_loop N al 0 q out))" by simp
    then show ?thesis
      using False Some by (simp add: queue_pull_multiple_def al_def Let_def split_beta)
  qed
qed

lemma call_wf:
  assumes wf: "queue_wf N q"
  shows "\<exists>q'. call N c (Some q) = Some q' \<and> queue_wf N q'"
proof (cases c)
  case Initialize
  then show ?thesis
    using reset_wf(1) [OF queue_wf_nonzero [OF wf] queue_wf_unat(1) [OF wf]]
    by (simp add: queue_initialize_def)
next
  case (Push v)
  then show ?thesis using queue_push_contents [OF wf, of v] by auto
next
  case (Push_no_overwrite v)
  show ?thesis
  proof (cases "count q < N")
    case True
    then show ?thesis
      using queue_push_contents [OF wf, of v] Push_no_overwrite
      by (auto simp: queue_push_no_overwrite_eq_push)
  next
    case False
    then show ?thesis
      using wf Push_no_overwrite by (simp add: queue_push_no_overwrite_full not_less)
  qed
next
  case (Pull data)
  show ?thesis
  proof (cases data)
    case None
    then show ?thesis using wf Pull by (simp add: queue_pull_def)
  next
    case (Some d)
    show ?thesis
    proof (cases "count q = 0")
      case True
      then show ?thesis using wf Pull Some by (simp add: queue_pull_empty)
    next
      case False
      then show ?thesis
        using queue_pull_contents [OF wf False, of d] Pull Some by auto
    qed
  qed
next
  case (Pull_multiple data_out len read_count)
  then show ?thesis using queue_pull_multiple_wf [OF wf] by simp
next
  case (Peek data)
  then show ?thesis
    using wf by (cases data) (simp_all add: queue_peek_def)
next
  case Clear
  then show ?thesis
    using reset_wf(1) [OF queue_wf_nonzero [OF wf] queue_wf_unat(1) [OF wf]]
    by (simp add: queue_clear_def)
qed

lemma calls_wf:
  assumes "queue_wf N q"
  shows "\<exists>q'. calls N cs (Some q) = Some q' \<and> queue_wf N q'"
  using assms
proof (induction cs arbitrary: q)
  case Nil
  then show ?case by simp
next
  case (Cons c cs)
  from call_wf [OF Cons.prems, of c] obtain q1 where
    "call N c (Some q) = Some q1" "queue_wf N q1" by blast
  with Cons.IH [of q1] show ?case by simp
qed

lemma pull_loop_frame:
  "\<exists>r c. fst (pull_loop N al i q out) = q\<lparr>read_index := r, count := c\<rparr>"
proof (induction N al i q out rule: pull_loop.induct)
  case (1 N al i q out)
  show ?case
  proof (cases "i < al")
    case False
    have "q = q\<lparr>read_index := read_index q, count := count q\<rparr>" by simp
    moreover have "pull_loop N al i q out = (q, out)"
      using False by (subst pull_loop.simps) simp
    ultimately show ?thesis by (metis fst_conv)
  next
    case True
    from "1.IH" [OF True refl refl refl] obtain r c where
      "fst (pull_loop N al (i + 1)
              (q\<lparr>read_index := (read_index q + 1) mod N, count := count q - 1\<rparr>)
              (out[unat i := buffer q ! unat (read_index q)]))
       = q\<lparr>read_index := r, count := c\<rparr>"
      by auto
    then show ?thesis
      using True by (subst pull_loop.simps) (auto simp: Let_def)
  qed
qed

lemma pull_multiple_empty:
  "len \<noteq> 0 \<Longrightarrow> count q = 0 \<Longrightarrow>
   queue_pull_multiple N (Some q) (Some out) len read_count
     = (QUEUE_ERROR_EMPTY, Some q, Some out, map_option (\<lambda>_. 0) read_count)"
  by (simp add: queue_pull_multiple_def)

lemma hd_queue_contents:
  assumes "queue_inv N q" "count q \<noteq> 0"
  shows "hd (queue_contents N q) = buffer q ! unat (read_index q)"
proof -
  have c: "0 < unat (count q)" using assms(2) by (simp add: unat_gt_0)
  have r: "unat (read_index q) < unat N"
    using assms(1) by (simp add: queue_inv_def word_less_nat_alt)
  have "queue_contents N q \<noteq> []" using assms(2) by (simp add: queue_contents_Nil)
  then have "hd (queue_contents N q) = queue_contents N q ! 0" by (simp add: hd_conv_nth)
  also have "\<dots> = buffer q ! unat (read_index q)"
    using c r by (simp add: queue_contents_nth)
  finally show ?thesis .
qed

subsection \<open>Strings\<close>

lemma c_str_no_NUL: "NUL \<notin> set (c_str s)"
  by (auto simp: c_str_def dest: set_takeWhileD)

lemma c_str_terminated: "NUL \<notin> set t \<Longrightarrow> c_str (t @ NUL # r) = t"
  by (induction t) (auto simp: c_str_def)

lemma strncpy_terminate:
  assumes "k < length dest"
  shows "(strncpy dest src k)[k := NUL]
         = take k (c_str src) @ replicate (Suc k - length (take k (c_str src))) NUL
             @ drop (Suc k) dest"
proof -
  define t where "t = take k (c_str src)"
  define pad where "pad = replicate (k - length t) NUL"
  have t: "length t \<le> k" by (simp add: t_def)
  have len: "length (t @ pad) = k" using t by (simp add: pad_def)
  have d: "drop k dest = dest ! k # drop (Suc k) dest"
    using assms by (simp add: Cons_nth_drop_Suc)
  have "strncpy dest src k = (t @ pad) @ dest ! k # drop (Suc k) dest"
    by (simp add: strncpy_def Let_def t_def pad_def d)
  then have "(strncpy dest src k)[k := NUL] = (t @ pad) @ NUL # drop (Suc k) dest"
    using len by (metis list_update_length)
  moreover have "pad @ [NUL] = replicate (Suc k - length t) NUL"
    using t by (simp add: pad_def replicate_append_same Suc_diff_le)
  ultimately show ?thesis
    by (simp add: t_def [symmetric])
qed

lemma queue_pull_with_string_support_ok:
  assumes wf: "queue_wf N q" and ne: "count q \<noteq> 0"
    and m: "max_len \<noteq> 0" "unat max_len \<le> length out"
  shows "\<exists>q'. queue_pull_with_string_support N item (Some q) (Some out) max_len =
           (1, Some q',
            Some (take (unat max_len - 1) (c_str (hd (queue_contents N q)))
                  @ replicate (unat max_len
                      - length (take (unat max_len - 1) (c_str (hd (queue_contents N q))))) NUL
                  @ drop (unat max_len) out))
           \<and> queue_wf N q' \<and> queue_contents N q' = tl (queue_contents N q)"
proof -
  from queue_pull_contents [OF wf ne, of item] obtain q' where
    pull: "queue_pull N (Some q) (Some item) = (QUEUE_OK, Some q', Some (hd (queue_contents N q)))"
    and q': "queue_wf N q'" "queue_contents N q' = tl (queue_contents N q)"
    by blast
  have k: "unat (max_len - 1) = unat max_len - 1"
    using m(1) by (rule unat_pred)
  have pos: "0 < unat max_len" using m(1) by (simp add: unat_gt_0)
  then have kl: "unat max_len - 1 < length out" and s: "Suc (unat max_len - 1) = unat max_len"
    using m(2) by simp_all
  from strncpy_terminate [OF kl, of "hd (queue_contents N q)"]
  have "(strncpy out (hd (queue_contents N q)) (unat max_len - 1))[unat max_len - 1 := NUL]
        = take (unat max_len - 1) (c_str (hd (queue_contents N q)))
          @ replicate (unat max_len
              - length (take (unat max_len - 1) (c_str (hd (queue_contents N q))))) NUL
          @ drop (unat max_len) out"
    unfolding s .
  then show ?thesis
    using m(1) q' by (simp add: queue_pull_with_string_support_def pull k Let_def)
qed

lemma queue_push_with_string_support_contents:
  assumes wf: "queue_wf N q" and S: "1 \<le> S" "length item = S"
  shows "\<exists>q'. queue_push_with_string_support S N item (Some q) (Some text) = Some q'
           \<and> queue_wf N q' \<and>
           queue_contents N q' =
             (if count q = N then tl (queue_contents N q) else queue_contents N q)
             @ [take (S - 1) (c_str text)
                  @ replicate (S - length (take (S - 1) (c_str text))) NUL]"
proof -
  have kl: "S - 1 < length item" and s: "Suc (S - 1) = S" using S by simp_all
  from strncpy_terminate [OF kl, of "text"]
  have item: "(strncpy item text (S - 1))[S - 1 := NUL]
              = take (S - 1) (c_str text)
                  @ replicate (S - length (take (S - 1) (c_str text))) NUL"
    unfolding s using S(2) by simp
  define x where "x = take (S - 1) (c_str text)
                        @ replicate (S - length (take (S - 1) (c_str text))) NUL"
  have "queue_push_with_string_support S N item (Some q) (Some text)
        = snd (queue_push N (Some q) x)"
    using item by (simp add: queue_push_with_string_support_def Let_def x_def)
  moreover from queue_push_contents [OF wf, of x] obtain q' where
    "queue_push N (Some q) x = (QUEUE_OK, Some q')" "queue_wf N q'"
    "queue_contents N q' =
       (if count q = N then tl (queue_contents N q) else queue_contents N q) @ [x]"
    by blast
  ultimately show ?thesis
    unfolding x_def [symmetric] by simp
qed

section \<open>Verified properties\<close>

subsection \<open>FIFO order and the overwrite policy\<close>

text \<open>
  Claim C3. Take a buffer of capacity \<open>N\<close> in any empty well-formed state: just
  initialised or cleared (\<open>queue_initialize_empty\<close>, \<open>queue_clear_empty\<close>), or emptied
  by pulls, with the two indices together on any slot. Push the \<open>k \<le> N\<close> values \<open>ps\<close> into it. Then \<open>k\<close> calls of \<open>queue_pull\<close> all
  return \<open>OK\<close>, and they deliver \<open>ps\<close> in the order in which it was pushed.
\<close>

theorem fifo_order:
  assumes "queue_wf N q" "count q = 0" "length ps \<le> unat N"
  shows "fst (pull_times N (length ps) (push_all N (Some q) ps) d)
         = map (Pair QUEUE_OK) ps"
proof -
  have nil: "queue_contents N q = []"
    using assms(2) by (simp add: queue_contents_Nil)
  from push_all_contents [OF assms(1), of ps] obtain q1 where
    q1: "push_all N (Some q) ps = Some q1" "queue_wf N q1" "queue_contents N q1 = ps"
    using assms(3) by (auto simp: nil)
  from pull_times_contents [OF q1(2), of "length ps" d] obtain q2 where
    "pull_times N (length ps) (Some q1) d = (map (Pair QUEUE_OK) ps, Some q2)"
    by (auto simp: q1(3))
  then show ?thesis
    by (simp only: q1(1) fst_conv)
qed

theorem fifo_order_witness:
  "queue_wf (4::8 word) \<lparr>buffer = [0, 0, 0, 0::nat], write_index = 3, read_index = 3, count = 0::8 word\<rparr> \<and>
   count \<lparr>buffer = [0, 0, 0, 0::nat], write_index = 3, read_index = 3, count = 0::8 word\<rparr> = 0 \<and>
   length [10, 20, 30, 40::nat] \<le> unat (4::8 word) \<and>
   fst (pull_times (4::8 word) (length [10, 20, 30, 40::nat])
          (push_all 4 (Some \<lparr>buffer = [0, 0, 0, 0::nat], write_index = 3, read_index = 3, count = 0::8 word\<rparr>) [10, 20, 30, 40]) 0)
     = [(QUEUE_OK, 10), (QUEUE_OK, 20), (QUEUE_OK, 30), (QUEUE_OK, 40)]"
proof -
  let ?q = "\<lparr>buffer = [0, 0, 0, 0::nat], write_index = 3, read_index = 3, count = 0::8 word\<rparr>"
  have h1: "queue_wf (4::8 word) ?q" by (simp add: queue_wf_def queue_inv_def)
  have h2: "count ?q = 0" by simp
  have h3: "length [10, 20, 30, 40::nat] \<le> unat (4::8 word)" by simp
  show ?thesis
    using h1 h2 h3 fifo_order [OF h1 h2 h3, of 0] by simp
qed

text \<open>
  Claim C2. Take a buffer of capacity \<open>N \<ge> 1\<close> in any well-formed state, in
  particular any empty one, wherever its two indices stand, and push \<open>N + 1\<close> values
  \<open>vs\<close> into it with \<open>queue_push\<close>. Then the next \<open>N\<close> calls of \<open>queue_pull\<close> return
  \<open>OK\<close> and deliver the second to the last value of \<open>vs\<close>, in that order, and the call
  after them returns \<open>ERROR_EMPTY\<close> and leaves the caller's variable as it was: the
  first value cannot be pulled any more. (A well-formed state has \<open>read_index < N\<close>,
  hence \<open>N \<ge> 1\<close>.)
\<close>

theorem overwrite_policy:
  assumes "queue_wf N q" "length vs = Suc (unat N)"
  shows "fst (pull_times N (Suc (unat N)) (push_all N (Some q) vs) d)
         = map (Pair QUEUE_OK) (tl vs) @ [(QUEUE_ERROR_EMPTY, last vs)]"
proof -
  from assms(2) obtain v vs' where vs: "vs = v # vs'" by (cases vs) auto
  have len: "length vs' = unat N" using assms(2) vs by simp
  have "0 < unat N" using queue_wf_unat(3) [OF assms(1)] by simp
  with len have ne: "vs' \<noteq> []" by auto
  have keep: "drop (length (queue_contents N q @ vs) - unat N) (queue_contents N q @ vs) = vs'"
    using len vs by simp
  from push_all_contents [OF assms(1), of vs] obtain q1 where
    q1: "push_all N (Some q) vs = Some q1" "queue_wf N q1"
    "queue_contents N q1
       = drop (length (queue_contents N q @ vs) - unat N) (queue_contents N q @ vs)"
    by blast
  from pull_times_contents [OF q1(2), of "Suc (unat N)" d] obtain q2 where
    "pull_times N (Suc (unat N)) (Some q1) d =
       (map (Pair QUEUE_OK) (take (Suc (unat N)) vs')
          @ replicate (Suc (unat N) - length vs') (QUEUE_ERROR_EMPTY, last (d # vs')), Some q2)"
    unfolding q1(3) keep by blast
  then have "fst (pull_times N (Suc (unat N)) (Some q1) d)
             = map (Pair QUEUE_OK) vs' @ [(QUEUE_ERROR_EMPTY, last vs')]"
    using ne by (simp add: len del: pull_times.simps)
  moreover have "tl vs = vs'" "last vs = last vs'"
    using vs ne by simp_all
  ultimately show ?thesis
    by (simp only: q1(1))
qed

theorem overwrite_policy_witness:
  "queue_wf (4::8 word) \<lparr>buffer = [0, 0, 0, 0::nat], write_index = 3, read_index = 3, count = 0::8 word\<rparr> \<and>
   length [170, 187, 204, 221, 238::nat] = Suc (unat (4::8 word)) \<and>
   fst (pull_times (4::8 word) (Suc (unat (4::8 word)))
          (push_all 4 (Some \<lparr>buffer = [0, 0, 0, 0::nat], write_index = 3, read_index = 3, count = 0::8 word\<rparr>) [170, 187, 204, 221, 238]) 0)
     = [(QUEUE_OK, 187), (QUEUE_OK, 204), (QUEUE_OK, 221), (QUEUE_OK, 238),
        (QUEUE_ERROR_EMPTY, 238)]"
proof -
  let ?q = "\<lparr>buffer = [0, 0, 0, 0::nat], write_index = 3, read_index = 3, count = 0::8 word\<rparr>"
  have h1: "queue_wf (4::8 word) ?q" by (simp add: queue_wf_def queue_inv_def)
  have h2: "length [170, 187, 204, 221, 238::nat] = Suc (unat (4::8 word))" by simp
  show ?thesis
    using h1 h2 overwrite_policy [OF h1 h2, of 0] by simp
qed

subsection \<open>The capacity bound\<close>

text \<open>
  Claim C5. For every capacity \<open>N \<ge> 1\<close>, start from a buffer that has just been
  initialised and make any finite sequence of calls of \<open>initialize\<close>, \<open>push\<close>,
  \<open>push_no_overwrite\<close>, \<open>pull\<close>, \<open>pull_multiple\<close>, \<open>peek\<close> and \<open>clear\<close>, with any
  arguments. In the state reached \<open>count \<le> N\<close> holds and both indices are below \<open>N\<close>
  (all three are unsigned, so they are never negative).
\<close>

theorem capacity_bound:
  assumes "N \<noteq> 0" "length (buffer q0) = unat N"
  shows "\<exists>q. calls N cs (snd (queue_initialize (Some q0))) = Some q \<and>
           count q \<le> N \<and> read_index q < N \<and> write_index q < N"
proof -
  from calls_wf [OF reset_wf(1) [OF assms], of cs]
  show ?thesis by (auto simp: queue_initialize_def queue_wf_def queue_inv_def)
qed

theorem capacity_bound_witness:
  "(2::8 word) \<noteq> 0 \<and>
   length (buffer \<lparr>buffer = [0, 0::nat], write_index = 7, read_index = 9, count = 5\<rparr>)
     = unat (2::8 word) \<and>
   (\<exists>q. calls (2::8 word) [Push 1, Push 2, Push 3, Pull (Some 0), Push_no_overwrite 4]
          (snd (queue_initialize
             (Some \<lparr>buffer = [0, 0::nat], write_index = 7, read_index = 9, count = 5\<rparr>)))
        = Some q \<and> count q \<le> 2 \<and> read_index q < 2 \<and> write_index q < 2)"
proof -
  have h1: "(2::8 word) \<noteq> 0" by simp
  have h2: "length (buffer \<lparr>buffer = [0, 0::nat], write_index = 7, read_index = 9, count = 5\<rparr>)
              = unat (2::8 word)" by simp
  show ?thesis
    using h1 h2 capacity_bound [OF h1 h2] by blast
qed

subsection \<open>Bulk pull\<close>

text \<open>
  Claim C6. Let the state be well formed with \<open>count > 0\<close>, and let \<open>queue_pull_multiple\<close>
  be called with a valid handle, an output array with room for the live elements, and a
  \<open>length\<close> greater than \<open>count\<close>. The call returns \<open>OK\<close>, although it delivers fewer
  elements than were asked for; it stores \<open>count\<close> in \<open>*read_count\<close> when that pointer
  is not null; it writes the live elements, oldest first, to the front of the output
  array and leaves the rest of the array alone; and it leaves the queue empty, with
  the read index on the write index and the storage untouched.
\<close>

theorem pull_multiple_drains:
  assumes "queue_wf N q" "count q \<noteq> 0" "count q < len" "unat (count q) \<le> length out"
  shows "queue_pull_multiple N (Some q) (Some out) len read_count =
           (QUEUE_OK,
            Some (q\<lparr>read_index := write_index q, count := 0\<rparr>),
            Some (queue_contents N q @ drop (unat (count q)) out),
            map_option (\<lambda>_. count q) read_count)"
proof -
  let ?res = "pull_loop N (count q) 0 q out"
  have len: "len \<noteq> 0" using assms(3) by auto
  from pull_loop_contents [OF assms(1), of 0 "count q" out] assms(4)
  have wf': "queue_wf N (fst ?res)"
    and c': "queue_contents N (fst ?res) = []"
    and o': "snd ?res = queue_contents N q @ drop (unat (count q)) out"
    by (simp_all add: length_queue_contents)
  from pull_loop_frame [of N "count q" 0 q out] obtain r c where
    rc: "fst ?res = q\<lparr>read_index := r, count := c\<rparr>" by blast
  have c0: "c = 0" using c' rc by (simp add: queue_contents_Nil)
  have "unat (write_index q) = unat r"
    using queue_wf_unat(3,5) [OF wf'] by (simp add: rc c0)
  then have r: "r = write_index q" by (simp add: word_unat_eq_iff)
  have "?res = (q\<lparr>read_index := write_index q, count := 0\<rparr>,
                queue_contents N q @ drop (unat (count q)) out)"
    using rc o' by (simp add: c0 r prod_eq_iff)
  then show ?thesis
    using assms(2,3) len by (simp add: queue_pull_multiple_def Let_def)
qed

theorem pull_multiple_drains_witness:
  "queue_wf (4::8 word) \<lparr>buffer = [30, 0, 10, 20::nat], write_index = 1, read_index = 2, count = 3\<rparr> \<and>
   count \<lparr>buffer = [30, 0, 10, 20::nat], write_index = 1, read_index = 2, count = 3::8 word\<rparr> \<noteq> 0 \<and>
   count \<lparr>buffer = [30, 0, 10, 20::nat], write_index = 1, read_index = 2, count = 3::8 word\<rparr> < 5 \<and>
   unat (count \<lparr>buffer = [30, 0, 10, 20::nat], write_index = 1, read_index = 2, count = 3::8 word\<rparr>)
     \<le> length [0, 0, 0, 0, 0::nat] \<and>
   queue_pull_multiple (4::8 word)
       (Some \<lparr>buffer = [30, 0, 10, 20::nat], write_index = 1, read_index = 2, count = 3\<rparr>)
       (Some [0, 0, 0, 0, 0]) 5 (Some 99)
     = (QUEUE_OK,
        Some \<lparr>buffer = [30, 0, 10, 20], write_index = 1, read_index = 1, count = 0\<rparr>,
        Some [10, 20, 30, 0, 0], Some 3)"
proof -
  let ?q = "\<lparr>buffer = [30, 0, 10, 20::nat], write_index = 1, read_index = 2, count = 3::8 word\<rparr>"
  have h1: "queue_wf (4::8 word) ?q" by (simp add: queue_wf_def queue_inv_def)
  have h2: "count ?q \<noteq> 0" by simp
  have h3: "count ?q < 5" by simp
  have h4: "unat (count ?q) \<le> length [0, 0, 0, 0, 0::nat]" by simp
  have c: "queue_contents (4::8 word) ?q = [10, 20, 30]"
    by (simp add: queue_contents_def upt_rec)
  show ?thesis
    using h1 h2 h3 h4 pull_multiple_drains [OF h1 h2 h3 h4, of "Some 99"] by (simp add: c)
qed

text \<open>
  Claim C1, the part the code does not meet. With a valid handle and a valid output
  array, \<open>length == 0\<close> is answered by the first guard of \<open>queue_pull_multiple\<close>, which
  tests it together with the two pointers and returns \<open>ERROR_NULL_POINTER\<close>. No function
  of the header returns \<open>ERROR_INVALID_LENGTH\<close>. (The other part of the claim, \<open>ERROR_EMPTY\<close>
  with \<open>*read_count = 0\<close> on an empty queue and a non-zero length, is
  \<open>pull_multiple_empty\<close> above.)
\<close>

theorem pull_multiple_zero_length:
  "queue_pull_multiple N (Some q) (Some out) 0 read_count
     = (QUEUE_ERROR_NULL_POINTER, Some q, Some out, read_count)"
  by (simp add: queue_pull_multiple_def)

subsection \<open>Rejection by \<open>push_no_overwrite\<close>\<close>

text \<open>
  Claim C4. In a state within the ranges of the data model and with \<open>count = N\<close>,
  \<open>queue_push_no_overwrite\<close> on a valid handle returns \<open>ERROR_FULL\<close> and hands back the
  state as it was: storage, both indices and the count. A \<open>queue_pull\<close> right after it
  therefore succeeds and delivers the element that was the oldest before the call.
\<close>

theorem push_no_overwrite_rejects:
  assumes "queue_inv N q" "count q = N"
  shows "queue_push_no_overwrite N (Some q) v = (QUEUE_ERROR_FULL, Some q) \<and>
         (\<exists>q'. queue_pull N (snd (queue_push_no_overwrite N (Some q) v)) (Some d)
                 = (QUEUE_OK, Some q', Some (hd (queue_contents N q))))"
proof -
  have "N \<noteq> 0" using assms(1) by (auto simp: queue_inv_def)
  then have ne: "count q \<noteq> 0" using assms(2) by simp
  have "queue_push_no_overwrite N (Some q) v = (QUEUE_ERROR_FULL, Some q)"
    using assms(2) by (simp add: queue_push_no_overwrite_full)
  then show ?thesis
    using ne hd_queue_contents [OF assms(1) ne] by (simp add: queue_pull_def Let_def)
qed

theorem push_no_overwrite_rejects_witness:
  "queue_inv (2::8 word) \<lparr>buffer = [7, 8::nat], write_index = 1, read_index = 1, count = 2\<rparr> \<and>
   count \<lparr>buffer = [7, 8::nat], write_index = 1, read_index = 1, count = 2::8 word\<rparr> = 2 \<and>
   queue_push_no_overwrite (2::8 word)
       (Some \<lparr>buffer = [7, 8::nat], write_index = 1, read_index = 1, count = 2\<rparr>) 9
     = (QUEUE_ERROR_FULL, Some \<lparr>buffer = [7, 8], write_index = 1, read_index = 1, count = 2\<rparr>) \<and>
   queue_pull (2::8 word)
       (snd (queue_push_no_overwrite 2
          (Some \<lparr>buffer = [7, 8::nat], write_index = 1, read_index = 1, count = 2\<rparr>) 9)) (Some 0)
     = (QUEUE_OK, Some \<lparr>buffer = [7, 8], write_index = 1, read_index = 0, count = 1\<rparr>, Some 8)"
proof -
  let ?q = "\<lparr>buffer = [7, 8::nat], write_index = 1, read_index = 1, count = 2::8 word\<rparr>"
  have h1: "queue_inv (2::8 word) ?q" by (simp add: queue_inv_def)
  have h2: "count ?q = 2" by simp
  have c: "queue_contents (2::8 word) ?q = [8, 7]"
    by (simp add: queue_contents_def upt_rec)
  show ?thesis
    using h1 h2 push_no_overwrite_rejects [OF h1 h2, of 9 0]
    by (simp add: c queue_pull_def)
qed

subsection \<open>Queries\<close>

text \<open>
  Claim C7. For every state with \<open>count \<le> N\<close>: \<open>queue_is_empty\<close> is true exactly when
  \<open>count = 0\<close>, and true for a null handle; \<open>queue_is_full\<close> is true exactly when
  \<open>count = N\<close>; \<open>queue_available_space\<close> is \<open>N - count\<close>, as a \<open>size_t\<close> and as a
  number, and 0 for a null handle.
\<close>

theorem queries_correct:
  fixes q :: "('a, 'w::len) queue"
  assumes "count q \<le> N"
  shows "(queue_is_empty (Some q) \<longleftrightarrow> count q = 0) \<and>
         queue_is_empty (None :: ('a, 'w) queue option) \<and>
         (queue_is_full N (Some q) \<longleftrightarrow> count q = N) \<and>
         queue_available_space N (Some q) = N - count q \<and>
         unat (queue_available_space N (Some q)) = unat N - unat (count q) \<and>
         queue_available_space N (None :: ('a, 'w) queue option) = 0"
  using assms
  by (auto simp: queue_is_empty_def queue_is_full_def queue_available_space_def unat_sub)

theorem queries_correct_witness:
  "count \<lparr>buffer = [7, 8, 9::nat], write_index = 1, read_index = 0, count = 1::8 word\<rparr> \<le> 3 \<and>
   \<not> queue_is_empty (Some \<lparr>buffer = [7, 8, 9::nat], write_index = 1, read_index = 0, count = 1::8 word\<rparr>) \<and>
   \<not> queue_is_full 3 (Some \<lparr>buffer = [7, 8, 9::nat], write_index = 1, read_index = 0, count = 1::8 word\<rparr>) \<and>
   queue_available_space 3
       (Some \<lparr>buffer = [7, 8, 9::nat], write_index = 1, read_index = 0, count = 1::8 word\<rparr>) = 2"
proof -
  let ?q = "\<lparr>buffer = [7, 8, 9::nat], write_index = 1, read_index = 0, count = 1::8 word\<rparr>"
  have h: "count ?q \<le> 3" by simp
  show ?thesis
    using h queries_correct [OF h] by simp
qed

subsection \<open>Peek\<close>

text \<open>
  Claim C8. For a valid handle, a valid output pointer and a state within the ranges
  of the data model: when \<open>count = 0\<close>, \<open>queue_peek\<close> returns \<open>ERROR_EMPTY\<close>; when
  \<open>count > 0\<close>, it returns \<open>OK\<close> and copies the slot at \<open>read_index\<close>, which is in
  range and holds the oldest live element, to the output. In both cases the state is
  handed back as it was: storage, both indices and the count.
\<close>

theorem peek_frame:
  assumes "queue_inv N q"
  shows "(count q = 0 \<longrightarrow>
            queue_peek (Some q) (Some d) = (QUEUE_ERROR_EMPTY, Some q, Some d)) \<and>
         (count q \<noteq> 0 \<longrightarrow>
            queue_peek (Some q) (Some d)
              = (QUEUE_OK, Some q, Some (buffer q ! unat (read_index q))) \<and>
            unat (read_index q) < length (buffer q) \<and>
            buffer q ! unat (read_index q) = hd (queue_contents N q))"
  using assms hd_queue_contents [OF assms]
  by (auto simp: queue_peek_def queue_inv_def word_less_nat_alt)

theorem peek_frame_witness:
  "queue_inv (2::8 word) \<lparr>buffer = [7, 8::nat], write_index = 1, read_index = 1, count = 2\<rparr> \<and>
   queue_peek (Some \<lparr>buffer = [7, 8::nat], write_index = 1, read_index = 1, count = 2::8 word\<rparr>) (Some 0)
     = (QUEUE_OK, Some \<lparr>buffer = [7, 8], write_index = 1, read_index = 1, count = 2\<rparr>, Some 8) \<and>
   queue_inv (2::8 word) \<lparr>buffer = [7, 8::nat], write_index = 0, read_index = 0, count = 0\<rparr> \<and>
   queue_peek (Some \<lparr>buffer = [7, 8::nat], write_index = 0, read_index = 0, count = 0::8 word\<rparr>) (Some 0)
     = (QUEUE_ERROR_EMPTY, Some \<lparr>buffer = [7, 8], write_index = 0, read_index = 0, count = 0\<rparr>, Some 0)"
proof -
  let ?q = "\<lparr>buffer = [7, 8::nat], write_index = 1, read_index = 1, count = 2::8 word\<rparr>"
  let ?e = "\<lparr>buffer = [7, 8::nat], write_index = 0, read_index = 0, count = 0::8 word\<rparr>"
  have h1: "queue_inv (2::8 word) ?q" by (simp add: queue_inv_def)
  have h2: "queue_inv (2::8 word) ?e" by (simp add: queue_inv_def)
  show ?thesis
    using h1 h2 peek_frame [OF h1, of 0] peek_frame [OF h2, of 0] by simp
qed

subsection \<open>The string helpers\<close>

text \<open>
  Claim C9. Two facts about a string queue with elements of \<open>S \<ge> 1\<close> characters, in
  a well-formed state, and an output buffer of at least \<open>max_len\<close> bytes.

  First: push a string of more than \<open>S - 1\<close> characters with the push helper, pull the
  elements that were in the queue before it, and then pull with the pull helper into a
  buffer with \<open>max_len \<ge> S\<close>. The helper returns 1, and the buffer then starts with
  the first \<open>S - 1\<close> characters of the string, followed by \<open>'\\0'\<close> in every position
  up to \<open>max_len - 1\<close>.

  Second: when the queue is not empty and \<open>1 \<le> max_len \<le> n + 1\<close>, where \<open>n\<close> is the
  length of the string in the oldest element, the pull helper returns 1 and the buffer
  then starts with the first \<open>max_len - 1\<close> characters of that string, followed by
  \<open>'\\0'\<close>.

  In both cases the bytes of the buffer from \<open>max_len\<close> on are not touched.
\<close>

theorem string_truncation:
  assumes wf: "queue_wf N q"
    and S: "1 \<le> S" "length item = S"
    and out: "unat max_len \<le> length out"
  shows "(S - 1 < length (c_str text) \<longrightarrow> S \<le> unat max_len \<longrightarrow>
            (let q1 = queue_push_with_string_support S N item (Some q) (Some text);
                 q2 = snd (pull_times N (unat (queue_count q1) - 1) q1 d)
             in \<exists>q3. queue_pull_with_string_support N item' q2 (Some out) max_len =
                  (1, Some q3,
                   Some (take (S - 1) (c_str text)
                         @ replicate (unat max_len - (S - 1)) NUL
                         @ drop (unat max_len) out))))
       \<and> (count q \<noteq> 0 \<longrightarrow> max_len \<noteq> 0 \<longrightarrow>
            unat max_len \<le> Suc (length (c_str (hd (queue_contents N q)))) \<longrightarrow>
            (\<exists>q'. queue_pull_with_string_support N item' (Some q) (Some out) max_len =
                  (1, Some q',
                   Some (take (unat max_len - 1) (c_str (hd (queue_contents N q)))
                         @ NUL # drop (unat max_len) out))))"
proof (intro conjI impI)
  assume long: "S - 1 < length (c_str text)" and big: "S \<le> unat max_len"
  define t where "t = take (S - 1) (c_str text)"
  have t: "length t = S - 1" using long by (simp add: t_def)
  have nz: "NUL \<notin> set t"
    using c_str_no_NUL [of "text"] by (auto simp: t_def dest: in_set_takeD)
  have x: "t @ replicate (S - length t) NUL = t @ NUL # []"
    using S(1) by (simp add: t)
  from queue_push_with_string_support_contents [OF wf S, of "text"] obtain q1 where
    q1: "queue_push_with_string_support S N item (Some q) (Some text) = Some q1"
    "queue_wf N q1"
    and "\<exists>old. queue_contents N q1 = old @ [t @ NUL # []]"
    unfolding t_def [symmetric] x by auto
  then obtain old where c1: "queue_contents N q1 = old @ [t @ NUL # []]" by blast
  have n1: "unat (count q1) - 1 = length old"
    using length_queue_contents [of N q1] by (simp add: c1)
  from pull_times_contents [OF q1(2), of "length old" d] obtain q2 where
    q2: "snd (pull_times N (length old) (Some q1) d) = Some q2" "queue_wf N q2"
    "queue_contents N q2 = [t @ NUL # []]"
    by (auto simp: c1)
  have ne: "count q2 \<noteq> 0"
    using q2(3) queue_contents_Nil [of N q2] by auto
  have m: "max_len \<noteq> 0" using S(1) big by auto
  have k: "S - 1 \<le> unat max_len - 1" using big by simp
  from queue_pull_with_string_support_ok [OF q2(2) ne m out, of item']
  have "\<exists>q3. queue_pull_with_string_support N item' (Some q2) (Some out) max_len =
          (1, Some q3,
           Some (t @ replicate (unat max_len - (S - 1)) NUL @ drop (unat max_len) out))"
    using k by (auto simp: q2(3) c_str_terminated [OF nz] t)
  then show "let q1 = queue_push_with_string_support S N item (Some q) (Some text);
                 q2 = snd (pull_times N (unat (queue_count q1) - 1) q1 d)
             in \<exists>q3. queue_pull_with_string_support N item' q2 (Some out) max_len =
                  (1, Some q3,
                   Some (take (S - 1) (c_str text)
                         @ replicate (unat max_len - (S - 1)) NUL
                         @ drop (unat max_len) out))"
    unfolding Let_def q1(1) by (simp add: queue_count_def n1 q2(1) t_def del: One_nat_def)
next
  assume ne: "count q \<noteq> 0" and m: "max_len \<noteq> 0"
    and small: "unat max_len \<le> Suc (length (c_str (hd (queue_contents N q))))"
  have pos: "0 < unat max_len" using m by (simp add: unat_gt_0)
  have "length (take (unat max_len - 1) (c_str (hd (queue_contents N q)))) = unat max_len - 1"
    using small by simp
  then have "replicate (unat max_len
                - length (take (unat max_len - 1) (c_str (hd (queue_contents N q))))) NUL
             = [NUL]"
    using pos by simp
  with queue_pull_with_string_support_ok [OF wf ne m out, of item']
  show "\<exists>q'. queue_pull_with_string_support N item' (Some q) (Some out) max_len =
          (1, Some q',
           Some (take (unat max_len - 1) (c_str (hd (queue_contents N q)))
                 @ NUL # drop (unat max_len) out))"
    by auto
qed

theorem string_truncation_witness:
  "queue_wf (2::8 word) \<lparr>buffer = [''aaaa'', ''bbbb''], write_index = 1, read_index = 0, count = 1\<rparr> \<and>
   (1::nat) \<le> 4 \<and> length ''????'' = 4 \<and> unat (6::8 word) \<le> length ''zzzzzzzz'' \<and>
   4 - 1 < length (c_str ''hello'') \<and> 4 \<le> unat (6::8 word) \<and>
   (\<exists>q3. queue_pull_with_string_support (2::8 word) ''!!!!''
           (snd (pull_times 2 1
              (queue_push_with_string_support 4 2 ''????''
                 (Some \<lparr>buffer = [''aaaa'', ''bbbb''], write_index = 1, read_index = 0, count = 1\<rparr>)
                 (Some ''hello'')) ''....''))
           (Some ''zzzzzzzz'') 6
         = (1, Some q3, Some (''hel'' @ replicate 3 NUL @ ''zz''))) \<and>
   unat (3::8 word) \<le> length ''zzzzzzzz'' \<and>
   count \<lparr>buffer = [''aaaa'', ''bbbb''], write_index = 1, read_index = 0, count = 1::8 word\<rparr> \<noteq> 0 \<and>
   (3::8 word) \<noteq> 0 \<and>
   unat (3::8 word) \<le> Suc (length (c_str (hd (queue_contents (2::8 word)
       \<lparr>buffer = [''aaaa'', ''bbbb''], write_index = 1, read_index = 0, count = 1::8 word\<rparr>)))) \<and>
   (\<exists>q'. queue_pull_with_string_support (2::8 word) ''!!!!''
           (Some \<lparr>buffer = [''aaaa'', ''bbbb''], write_index = 1, read_index = 0, count = 1\<rparr>)
           (Some ''zzzzzzzz'') 3
         = (1, Some q', Some (''aa'' @ NUL # ''zzzzz'')))"
proof -
  let ?q = "\<lparr>buffer = [''aaaa'', ''bbbb''], write_index = 1, read_index = 0, count = 1::8 word\<rparr>"
  have h1: "queue_wf (2::8 word) ?q" by (simp add: queue_wf_def queue_inv_def)
  have h2: "(1::nat) \<le> 4" by simp
  have h3: "length ''????'' = 4" by simp
  have h4: "unat (6::8 word) \<le> length ''zzzzzzzz''" by simp
  have h5: "unat (3::8 word) \<le> length ''zzzzzzzz''" by simp
  have s: "c_str ''hello'' = ''hello''" by (simp add: c_str_def NUL_def)
  have c: "queue_contents (2::8 word) ?q = [''aaaa'']"
    by (simp add: queue_contents_def upt_rec)
  have s': "c_str ''aaaa'' = ''aaaa''" by (simp add: c_str_def NUL_def)
  have p: "queue_push_with_string_support 4 (2::8 word) ''????'' (Some ?q) (Some ''hello'')
           = Some \<lparr>buffer = [''aaaa'', ''hel'' @ [NUL]], write_index = 0, read_index = 0, count = 2\<rparr>"
    by (simp add: queue_push_with_string_support_def queue_push_def strncpy_def s Let_def word_le_nat_alt)
  show ?thesis
    using h1 h2 h3 h4 h5
      string_truncation [OF h1 h2 h3 h4, of "''hello''" "''....''" "''!!!!''"]
      string_truncation [OF h1 h2 h3 h5, of "''hello''" "''....''" "''!!!!''"]
    by (simp add: s c s' p queue_count_def)
qed

text \<open>
  Claim C10. The push helper returns the queue as it was, all fields alike, when the
  string pointer is null, and does nothing when the queue pointer is null. Its return
  type is \<open>void\<close>: no error is signalled.
\<close>

theorem push_string_null_noop:
  "queue_push_with_string_support S N item queue None = queue \<and>
   queue_push_with_string_support S N item None str = None"
  by (simp add: queue_push_with_string_support_def split: option.splits)

end
